theory Spec2Isabelle
  imports Main "HOL-Library.Sublist"
begin

section \<open>Strings as Python uses them\<close>

text \<open>
  The module \<^verbatim>\<open>sitegenerator/fileshandling.py\<close> works on text lines. A Python
  \<^verbatim>\<open>str\<close> is modelled as a \<^typ>\<open>string\<close>; the line terminator is the character
  with code 10.
\<close>

definition nl :: char where
  "nl = CHR 0x0A"

definition cr :: char where
  "cr = CHR 0x0D"

text \<open>
  \<^verbatim>\<open>str.replace(old, new)\<close>: every non-overlapping occurrence of \<open>old\<close>, found from
  left to right, is replaced. For an empty \<open>old\<close> Python puts \<open>new\<close> before every
  character and at the end.
\<close>

fun replace_scan :: "string \<Rightarrow> string \<Rightarrow> string \<Rightarrow> string" where
  "replace_scan old new [] = []"
| "replace_scan old new (c # cs) =
     (if prefix old (c # cs)
      then new @ replace_scan old new (drop (length old - 1) cs)
      else c # replace_scan old new cs)"

definition str_replace :: "string \<Rightarrow> string \<Rightarrow> string \<Rightarrow> string" where
  "str_replace old new s =
     (if old = [] then new @ concat (map (\<lambda>c. c # new) s)
      else replace_scan old new s)"

section \<open>Link prepender\<close>

text \<open>
  \<^verbatim>\<open>prepend_external_link(path, message, url)\<close> iterates over the lines of the
  read handle \<open>source_f\<close> that \<^verbatim>\<open>replace_file_inline\<close> yields and writes to the
  paired write handle. The model takes the lines read and returns the strings written,
  in order; \<open>line_count\<close> is the loop's counter.
\<close>

definition annotation_line :: "string \<Rightarrow> string \<Rightarrow> string" where
  "annotation_line message url = ''> ['' @ message @ '']('' @ url @ '')'' @ [nl]"

fun prepend_loop :: "int \<Rightarrow> string \<Rightarrow> string \<Rightarrow> string list \<Rightarrow> string list" where
  "prepend_loop line_count message url [] = []"
| "prepend_loop line_count message url (line # source_f) =
     (if line_count = 2 then [annotation_line message url] else [])
       @ line # prepend_loop (line_count + 1) message url source_f"

definition prepend_external_link :: "string list \<Rightarrow> string \<Rightarrow> string \<Rightarrow> string list" where
  "prepend_external_link source_f message url = prepend_loop 1 message url source_f"


section \<open>Link normaliser\<close>

text \<open>
  \<^verbatim>\<open>relative_markdown_links = re.compile("\(((?!http|www).[^\)]*\.md)\)")\<close>.
  \<open>match_link\<close> is the attempt to match at an opening parenthesis, given the text after
  it: the lookahead refuses \<^verbatim>\<open>http\<close> and \<^verbatim>\<open>www\<close>, the dot takes one character
  other than a newline, the greedy class takes characters up to the next closing
  parenthesis and must give back exactly \<^verbatim>\<open>.md\<close>, its last three characters, since
  the closing parenthesis has to follow at once. The result is the captured group.
\<close>

fun match_link :: "string \<Rightarrow> string option" where
  "match_link [] = None"
| "match_link (c # r) =
     (if c = nl \<or> prefix ''http'' (c # r) \<or> prefix ''www'' (c # r) then None
      else let run = takeWhile (\<lambda>x. x \<noteq> CHR '')'') r
           in if length run < length r \<and> suffix ''.md'' run then Some (c # run) else None)"

text \<open>
  \<^verbatim>\<open>relative_markdown_links.findall(line)\<close>: the groups of the non-overlapping matches
  from left to right. After a match the scan goes on behind its closing parenthesis,
  after a failed attempt at the next character.
\<close>

function relative_markdown_links_findall :: "string \<Rightarrow> string list" where
  "relative_markdown_links_findall [] = []"
| "relative_markdown_links_findall (c # cs) =
     (if c = CHR ''(''
      then (case match_link cs of
              Some g \<Rightarrow> g # relative_markdown_links_findall (drop (length g + 1) cs)
            | None \<Rightarrow> relative_markdown_links_findall cs)
      else relative_markdown_links_findall cs)"
  by pat_completeness auto
termination
  by (relation "measure length") auto

text \<open>
  The loop body of \<^verbatim>\<open>reformat_links\<close>: for each group found in the line as read, the
  whole current line has the group replaced by the group without its last three
  characters (\<^verbatim>\<open>link_to_replace[:-3]\<close>).
\<close>

definition strip_md :: "string \<Rightarrow> string" where
  "strip_md link_to_replace = take (length link_to_replace - 3) link_to_replace"

definition reformat_line :: "string \<Rightarrow> string" where
  "reformat_line line =
     fold (\<lambda>link_to_replace l. str_replace link_to_replace (strip_md link_to_replace) l)
       (relative_markdown_links_findall line) line"

definition reformat_links :: "string list \<Rightarrow> string list" where
  "reformat_links source_f = map reformat_line source_f"

section \<open>Token substituter\<close>

text \<open>
  \<^verbatim>\<open>required_variable_re\<close> (two opening square brackets, a captured run of
  characters other than square brackets, two closing square brackets) and
  \<^verbatim>\<open>optional_variable_re\<close> (the same with angle brackets; a backslash before an
  angle bracket only escapes it) have one shape: the opening character twice, a greedy
  run of characters that are neither the opening nor the closing character, the closing
  character twice. The run is maximal, so the match at a position succeeds exactly when
  the two closing characters follow the maximal run.
\<close>

function variable_findall :: "char \<Rightarrow> char \<Rightarrow> string \<Rightarrow> string list" where
  "variable_findall opn cls [] = []"
| "variable_findall opn cls [x] = []"
| "variable_findall opn cls (x # y # ys) =
     (if x = opn \<and> y = opn
         \<and> prefix [cls, cls] (dropWhile (\<lambda>z. z \<noteq> opn \<and> z \<noteq> cls) ys)
      then takeWhile (\<lambda>z. z \<noteq> opn \<and> z \<noteq> cls) ys
             # variable_findall opn cls (drop 2 (dropWhile (\<lambda>z. z \<noteq> opn \<and> z \<noteq> cls) ys))
      else variable_findall opn cls (y # ys))"
  by pat_completeness auto
termination
proof (relation "measure (\<lambda>(opn, cls, s). length s)")
  fix opn cls :: char and x y :: char and ys :: string
  have "length (dropWhile (\<lambda>z. z \<noteq> opn \<and> z \<noteq> cls) ys) \<le> length ys"
    by (rule length_dropWhile_le)
  then show "((opn, cls, drop 2 (dropWhile (\<lambda>z. z \<noteq> opn \<and> z \<noteq> cls) ys)), opn, cls, x # y # ys)
               \<in> measure (\<lambda>(opn, cls, s). length s)"
    by simp
qed auto

definition required_variable_findall :: "string \<Rightarrow> string list" where
  "required_variable_findall = variable_findall (CHR ''['') (CHR '']'')"

definition optional_variable_findall :: "string \<Rightarrow> string list" where
  "optional_variable_findall = variable_findall (CHR ''<'') (CHR ''>'')"

text \<open>The two values of \<open>replace_pattern\<close>, applied to a keyword by \<^verbatim>\<open>format\<close>.\<close>

definition optional_pattern :: "string \<Rightarrow> string" where
  "optional_pattern keyword = ''<<'' @ keyword @ ''>>''"

definition required_pattern :: "string \<Rightarrow> string" where
  "required_pattern keyword = ''[['' @ keyword @ '']]''"

text \<open>
  \<^verbatim>\<open>_replace_from_map\<close>: the keywords are found once, in the line as passed in; each
  is then replaced in the current line, by its value or by the empty string.
\<close>

definition replace_step ::
  "(string \<Rightarrow> string) \<Rightarrow> (string \<rightharpoonup> string) \<Rightarrow> string \<Rightarrow> string \<times> string list
     \<Rightarrow> string \<times> string list" where
  "replace_step replace_pattern device_vars keyword acc =
     (case acc of (line, unfound_keywords_list) \<Rightarrow>
        (case device_vars keyword of
           Some replace_with \<Rightarrow>
             (str_replace (replace_pattern keyword) replace_with line, unfound_keywords_list)
         | None \<Rightarrow>
             (str_replace (replace_pattern keyword) [] line,
              unfound_keywords_list @ [keyword])))"

definition replace_from_map ::
  "string \<Rightarrow> (string \<Rightarrow> string list) \<Rightarrow> (string \<Rightarrow> string) \<Rightarrow> (string \<rightharpoonup> string)
     \<Rightarrow> string \<times> string list" where
  "replace_from_map line regexp_findall replace_pattern device_vars =
     fold (replace_step replace_pattern device_vars) (regexp_findall line) (line, [])"

datatype log_record =
    Debug_direct_copy string
  | Error_couldnt_open string
  | Error_couldnt_import string string
  | Info_optional_unmapped "string option" string string
  | Error_required_unmapped "string option" string string

text \<open>
  \<^verbatim>\<open>_replace_line_content\<close> returns the new line and the success flag; the third
  component is what it logs, in order.
\<close>

definition replace_line_content ::
  "string \<Rightarrow> string \<Rightarrow> string option \<Rightarrow> (string \<rightharpoonup> string)
     \<Rightarrow> string \<times> bool \<times> log_record list" where
  "replace_line_content line filename device_name device_vars =
     (case replace_from_map line optional_variable_findall optional_pattern device_vars of
        (line1, unfound_optional) \<Rightarrow>
     (case replace_from_map line1 required_variable_findall required_pattern device_vars of
        (line2, unfound_required) \<Rightarrow>
          (line2, unfound_required = [],
           map (\<lambda>keyword. Info_optional_unmapped device_name keyword filename) unfound_optional
           @ map (\<lambda>keyword. Error_required_unmapped device_name keyword filename)
               unfound_required)))"

text \<open>
  \<^verbatim>\<open>replace_variables\<close> over the lines of the read handle: the lines written, the
  success flag and the log.
\<close>

fun replace_variables_loop ::
  "string \<Rightarrow> string option \<Rightarrow> (string \<rightharpoonup> string) \<Rightarrow> string list \<Rightarrow> bool
     \<Rightarrow> string list \<times> bool \<times> log_record list" where
  "replace_variables_loop path device_name device_vars [] success = ([], success, [])"
| "replace_variables_loop path device_name device_vars (line # source_f) success =
     (case replace_line_content line path device_name device_vars of
        (line', new_success, logs) \<Rightarrow>
     (case replace_variables_loop path device_name device_vars source_f
             (new_success \<and> success) of
        (written, success', logs') \<Rightarrow> (line' # written, success', logs @ logs')))"

definition replace_variables ::
  "string list \<Rightarrow> string \<Rightarrow> string option \<Rightarrow> (string \<rightharpoonup> string)
     \<Rightarrow> string list \<times> bool \<times> log_record list" where
  "replace_variables source_f path device_name device_vars =
     replace_variables_loop path device_name device_vars source_f True"

subsection \<open>A line as literal text and placeholders\<close>

text \<open>
  The definitions of this subsection are not taken from the source. They state the
  reading of a line that the description of the substituter has in mind, and the
  functions of the source are compared with them below: a line is a sequence of pieces
  of literal text and placeholders, required or optional, each with a name.
  \<open>render_line\<close> is the line as text, \<open>substituted\<close> is what a piece is to become under
  a variable map: a placeholder becomes the value of its name, or the empty string when
  the name has none. \<open>names\<close> lists the names of the placeholders of one kind, in order.
\<close>

datatype kind = Required | Optional

datatype token = Lit string | Placeholder kind string

fun opener :: "kind \<Rightarrow> char" where
  "opener Required = CHR ''[''"
| "opener Optional = CHR ''<''"

fun closer :: "kind \<Rightarrow> char" where
  "closer Required = CHR '']''"
| "closer Optional = CHR ''>''"

definition pattern :: "kind \<Rightarrow> string \<Rightarrow> string" where
  "pattern k name = [opener k, opener k] @ name @ [closer k, closer k]"

fun render :: "token \<Rightarrow> string" where
  "render (Lit s) = s"
| "render (Placeholder k name) = pattern k name"

definition render_line :: "token list \<Rightarrow> string" where
  "render_line toks = concat (map render toks)"

definition value_of :: "(string \<rightharpoonup> string) \<Rightarrow> string \<Rightarrow> string" where
  "value_of device_vars name = (case device_vars name of Some v \<Rightarrow> v | None \<Rightarrow> [])"

fun substituted :: "(string \<rightharpoonup> string) \<Rightarrow> token \<Rightarrow> string" where
  "substituted device_vars (Lit s) = s"
| "substituted device_vars (Placeholder k name) = value_of device_vars name"

fun names :: "kind \<Rightarrow> token list \<Rightarrow> string list" where
  "names k [] = []"
| "names k (Lit s # toks) = names k toks"
| "names k (Placeholder k' name # toks) = (if k' = k then name # names k toks else names k toks)"

text \<open>
  Conditions under which the two readings agree. For a pass that looks for the
  placeholders of one kind, text is \<^emph>\<open>calm\<close> when the opening bracket of that kind is
  neither doubled in it nor its last character, so that no placeholder of the kind can
  begin in it or be completed by what follows it; text is \<^emph>\<open>quiet\<close> when it is calm
  for both kinds. A piece can be scanned by the pass for kind \<open>k\<close> when it is calm
  literal text, a placeholder of kind \<open>k\<close> whose name has no bracket of that kind (as
  the regular expression demands), or a placeholder of the other kind in whose name the
  opening bracket of \<open>k\<close> is not doubled. A piece is well formed when the optional pass
  and, unless it is an optional placeholder, the required pass can scan it.
\<close>

fun doubled :: "char \<Rightarrow> string \<Rightarrow> bool" where
  "doubled c [] = False"
| "doubled c [x] = False"
| "doubled c (x # y # ys) = ((x = c \<and> y = c) \<or> doubled c (y # ys))"

definition calm :: "kind \<Rightarrow> string \<Rightarrow> bool" where
  "calm k s = (\<not> doubled (opener k) s \<and> (s = [] \<or> last s \<noteq> opener k))"

definition quiet :: "string \<Rightarrow> bool" where
  "quiet s = (calm Required s \<and> calm Optional s)"

fun scannable :: "kind \<Rightarrow> token \<Rightarrow> bool" where
  "scannable k (Lit s) = calm k s"
| "scannable k (Placeholder k' name) =
     (if k' = k then opener k \<notin> set name \<and> closer k \<notin> set name
      else \<not> doubled (opener k) name)"

fun well_formed :: "token \<Rightarrow> bool" where
  "well_formed (Lit s) = quiet s"
| "well_formed (Placeholder Required name) =
     (CHR ''['' \<notin> set name \<and> CHR '']'' \<notin> set name \<and> \<not> doubled (CHR ''<'') name)"
| "well_formed (Placeholder Optional name) =
     (CHR ''<'' \<notin> set name \<and> CHR ''>'' \<notin> set name)"

text \<open>
  The values fit a line when the value of each optional name on it is quiet and the
  value of each required name on it is calm for the required pass.
\<close>

definition values_fit :: "(string \<rightharpoonup> string) \<Rightarrow> token list \<Rightarrow> bool" where
  "values_fit device_vars toks =
     (list_all (\<lambda>name. quiet (value_of device_vars name)) (names Optional toks)
      \<and> list_all (\<lambda>name. calm Required (value_of device_vars name)) (names Required toks))"

text \<open>
  The pieces after the names in \<open>S\<close> have been replaced in the pass for kind \<open>k\<close>: a
  placeholder of that kind with such a name has become the text put in for it.
\<close>

fun fill :: "kind \<Rightarrow> (string \<rightharpoonup> string) \<Rightarrow> string set \<Rightarrow> token \<Rightarrow> token" where
  "fill k device_vars S (Lit s) = Lit s"
| "fill k device_vars S (Placeholder k' name) =
     (if k' = k \<and> name \<in> S then Lit (value_of device_vars name) else Placeholder k' name)"

section \<open>Importing copier\<close>

subsection \<open>Files, paths and text streams\<close>

text \<open>
  What a path holds: text (its characters, decoded), content that cannot be decoded as
  text, or a directory. An undecodable file yields the lines decoded before the faulty
  block is reached and then raises \<^verbatim>\<open>UnicodeDecodeError\<close>; its second component is
  its raw content. The map is keyed by paths in normal form (see \<open>normpath\<close> below); a
  normal form that the map does not know names nothing.
\<close>

datatype node = Text string | Binary "string list" string | Directory

record filesys =
  files :: "string \<rightharpoonup> node"
  realpath :: "string \<Rightarrow> string"

text \<open>
  Iterating over a file opened in text mode with the default \<^verbatim>\<open>newline=None\<close>
  (universal newlines): a line ends behind \<^verbatim>\<open>\n\<close>, \<^verbatim>\<open>\r\n\<close> or \<^verbatim>\<open>\r\<close>, each
  handed to the program as \<^verbatim>\<open>\n\<close>; a last line without terminator is yielded as it
  is. The first argument is the line read so far.
\<close>

fun read_lines :: "string \<Rightarrow> string \<Rightarrow> string list" where
  "read_lines cur [] = (if cur = [] then [] else [cur])"
| "read_lines cur [c] = (if c = nl \<or> c = cr then [cur @ [nl]] else [cur @ [c]])"
| "read_lines cur (c # d # cs) =
     (if c = nl then (cur @ [nl]) # read_lines [] (d # cs)
      else if c = cr
        then (if d = nl then (cur @ [nl]) # read_lines [] cs
              else (cur @ [nl]) # read_lines [] (d # cs))
      else read_lines (cur @ [c]) (d # cs))"

definition node_lines :: "node \<Rightarrow> string list" where
  "node_lines n = (case n of Text s \<Rightarrow> read_lines [] s | Binary ls raw \<Rightarrow> ls | Directory \<Rightarrow> [])"

definition node_undecodable :: "node \<Rightarrow> bool" where
  "node_undecodable n = (case n of Text s \<Rightarrow> False | Binary ls raw \<Rightarrow> True | Directory \<Rightarrow> False)"

text \<open>\<^verbatim>\<open>os.path.dirname\<close> and \<^verbatim>\<open>os.path.join\<close> of two components, as posixpath has them.\<close>

definition dirname :: "string \<Rightarrow> string" where
  "dirname p =
     (let head = rev (dropWhile (\<lambda>c. c \<noteq> CHR ''/'') (rev p))
      in if head \<noteq> [] \<and> head \<noteq> replicate (length head) (CHR ''/'')
         then rev (dropWhile (\<lambda>c. c = CHR ''/'') (rev head)) else head)"

definition path_join :: "string \<Rightarrow> string \<Rightarrow> string" where
  "path_join a b =
     (if prefix ''/'' b then b
      else if a = [] \<or> suffix ''/'' a then a @ b
      else a @ ''/'' @ b)"

definition import_path :: "filesys \<Rightarrow> string \<Rightarrow> string \<Rightarrow> string" where
  "import_path fs name rel_path = path_join (dirname (realpath fs name)) rel_path"

text \<open>
  \<^verbatim>\<open>os.path.normpath\<close>: slashes are collapsed, \<^verbatim>\<open>.\<close> and empty components are
  dropped, \<^verbatim>\<open>..\<close> takes back the component before it, and exactly two leading slashes
  are kept. This is how the system finds what a path names, as long as no symbolic link
  is on the way and the directories that \<^verbatim>\<open>..\<close> steps out of exist. The root and the
  working directory always are directories. The working directory has no name in the
  model: a file system names each of its files by an absolute path or by a path relative
  to the working directory, not by both.
\<close>

fun split_slash :: "string \<Rightarrow> string list" where
  "split_slash [] = [[]]"
| "split_slash (c # cs) =
     (if c = CHR ''/'' then [] # split_slash cs
      else (case split_slash cs of [] \<Rightarrow> [[c]] | seg # segs \<Rightarrow> (c # seg) # segs))"

fun join_slash :: "string list \<Rightarrow> string" where
  "join_slash [] = []"
| "join_slash [seg] = seg"
| "join_slash (seg # seg' # segs) = seg @ CHR ''/'' # join_slash (seg' # segs)"

text \<open>One step of the loop of \<open>normpath\<close>; \<open>new_comps\<close> is kept with its last element first.\<close>

definition norm_step :: "bool \<Rightarrow> string \<Rightarrow> string list \<Rightarrow> string list" where
  "norm_step initial_slashes seg new_comps =
     (if seg = [] \<or> seg = ''.'' then new_comps
      else if seg \<noteq> ''..'' \<or> (\<not> initial_slashes \<and> new_comps = [])
              \<or> (new_comps \<noteq> [] \<and> hd new_comps = ''..'')
        then seg # new_comps
      else if new_comps \<noteq> [] then tl new_comps
      else new_comps)"

definition normpath :: "string \<Rightarrow> string" where
  "normpath path =
     (if path = [] then ''.''
      else let initial_slashes =
                 (if prefix ''//'' path \<and> \<not> prefix ''///'' path then 2
                  else if prefix ''/'' path then 1 else (0::nat));
               new_comps = rev (fold (norm_step (initial_slashes \<noteq> 0)) (split_slash path) []);
               path' = replicate initial_slashes (CHR ''/'') @ join_slash new_comps
           in if path' = [] then ''.'' else path')"

definition lookup :: "filesys \<Rightarrow> string \<Rightarrow> node option" where
  "lookup fs path =
     (if normpath path = ''/'' \<or> normpath path = ''//'' \<or> normpath path = ''.''
      then Some Directory
      else files fs (normpath path))"

subsection \<open>Opening files\<close>

text \<open>
  The exceptions of the library calls that the module makes. Only
  \<^verbatim>\<open>UnicodeDecodeError\<close> and \<^verbatim>\<open>FileNotFoundError\<close> have a handler in the module.
\<close>

datatype exn =
    UnicodeDecodeError
  | FileNotFoundError
  | IsADirectoryError
  | NotADirectoryError
  | SameFileError

text \<open>
  \<^verbatim>\<open>open(path)\<close>: a path that names nothing raises \<^verbatim>\<open>FileNotFoundError\<close>, a
  directory raises \<^verbatim>\<open>IsADirectoryError\<close>, a file is handed out.
\<close>

definition open_for_reading :: "filesys \<Rightarrow> string \<Rightarrow> exn + node" where
  "open_for_reading fs path =
     (case lookup fs path of
        None \<Rightarrow> Inl FileNotFoundError
      | Some Directory \<Rightarrow> Inl IsADirectoryError
      | Some f \<Rightarrow> Inr f)"

text \<open>
  \<^verbatim>\<open>open(path, 'w')\<close>: an existing file is emptied; a path that names nothing is
  created, empty, when its directory exists, raises \<^verbatim>\<open>FileNotFoundError\<close> when the
  directory does not exist and \<^verbatim>\<open>NotADirectoryError\<close> when that is a file; a
  directory raises \<^verbatim>\<open>IsADirectoryError\<close>.
\<close>

definition truncated :: "filesys \<Rightarrow> string \<Rightarrow> filesys" where
  "truncated fs path = fs\<lparr>files := (files fs)(normpath path \<mapsto> Text [])\<rparr>"

definition open_for_writing :: "filesys \<Rightarrow> string \<Rightarrow> exn + filesys" where
  "open_for_writing fs path =
     (case lookup fs path of
        Some Directory \<Rightarrow> Inl IsADirectoryError
      | Some f \<Rightarrow> Inr (truncated fs path)
      | None \<Rightarrow>
          (case lookup fs (dirname (normpath path)) of
             None \<Rightarrow> Inl FileNotFoundError
           | Some Directory \<Rightarrow> Inr (truncated fs path)
           | Some f \<Rightarrow> Inl NotADirectoryError))"

text \<open>
  \<^verbatim>\<open>shutil.copy2(source_path, destination_path)\<close> makes the destination a copy of
  the source file.
\<close>

definition copy2 :: "filesys \<Rightarrow> string \<Rightarrow> string \<Rightarrow> exn + filesys" where
  "copy2 fs source_path destination_path =
     (case lookup fs source_path of
        None \<Rightarrow> Inl FileNotFoundError
      | Some Directory \<Rightarrow> Inl IsADirectoryError
      | Some f \<Rightarrow>
          (if normpath source_path = normpath destination_path then Inl SameFileError
           else Inr (fs\<lparr>files := (files fs)(normpath destination_path \<mapsto> f)\<rparr>)))"

subsection \<open>The import directive\<close>

text \<open>
  \<^verbatim>\<open>import_re = re.compile("##IMPORT (.*)")\<close>; \<^verbatim>\<open>findall\<close> gives the captured rest
  of the line (up to a newline, which the dot does not match) for every match, and the
  scan goes on behind each match.
\<close>

function import_re_findall :: "string \<Rightarrow> string list" where
  "import_re_findall [] = []"
| "import_re_findall (c # cs) =
     (if prefix ''##IMPORT '' (c # cs)
      then takeWhile (\<lambda>x. x \<noteq> nl) (drop 8 cs)
             # import_re_findall (dropWhile (\<lambda>x. x \<noteq> nl) (drop 8 cs))
      else import_re_findall cs)"
  by pat_completeness auto
termination
proof (relation "measure length")
  fix c :: char and cs :: string
  have "length (dropWhile (\<lambda>x. x \<noteq> nl) (drop 8 cs)) \<le> length (drop 8 cs)"
    by (rule length_dropWhile_le)
  then show "(dropWhile (\<lambda>x. x \<noteq> nl) (drop 8 cs), c # cs) \<in> measure length"
    by simp
qed auto

subsection \<open>Copying with imports\<close>

record copy_state =
  written :: "string list"
  logged :: "log_record list"
  opened :: "string list"

text \<open>
  \<^verbatim>\<open>_copycontent_withimports_tag(source_f, dest_f)\<close>. \<open>name\<close> is \<^verbatim>\<open>source_f.name\<close>,
  \<open>lines\<close> are the lines \<open>source_f\<close> still has to yield, \<open>bad\<close> says that the iteration
  raises \<^verbatim>\<open>UnicodeDecodeError\<close> behind them, \<open>success\<close> is the local variable. The
  state holds what has been written to \<open>dest_f\<close>, what has been logged and the paths
  of the imported files opened, each in order; an exception leaves them as they are at
  the raise. The \<^verbatim>\<open>try\<close> block holds the \<^verbatim>\<open>open\<close> of the imported file and the
  recursive call, and its handler takes \<^verbatim>\<open>FileNotFoundError\<close> only. The first
  argument bounds the depth of nested imports: at depth 0 a further import gives \<open>None\<close>,
  the call that does not return (an import cycle exhausts the interpreter's stack or its
  file handles).
\<close>

fun copycontent_withimports_tag ::
  "nat \<Rightarrow> filesys \<Rightarrow> string \<Rightarrow> string list \<Rightarrow> bool \<Rightarrow> bool \<Rightarrow> copy_state
     \<Rightarrow> ((exn + bool) \<times> copy_state) option" where
  "copycontent_withimports_tag depth fs name [] bad success st =
     Some (if bad then Inl UnicodeDecodeError else Inr success, st)"
| "copycontent_withimports_tag depth fs name (line # lines) bad success st =
     (case import_re_findall line of
        [] \<Rightarrow> copycontent_withimports_tag depth fs name lines bad success
                (st\<lparr>written := written st @ [line]\<rparr>)
      | rel_path # _ \<Rightarrow>
         (case open_for_reading fs (import_path fs name rel_path) of
            Inl FileNotFoundError \<Rightarrow>
              copycontent_withimports_tag depth fs name lines bad False
                (st\<lparr>logged := logged st @ [Error_couldnt_import rel_path name]\<rparr>)
          | Inl e \<Rightarrow> Some (Inl e, st)
          | Inr import_f \<Rightarrow>
             (case depth of
                0 \<Rightarrow> None
              | Suc d \<Rightarrow>
                 (case copycontent_withimports_tag d fs (import_path fs name rel_path)
                         (node_lines import_f) (node_undecodable import_f) True
                         (st\<lparr>opened := opened st @ [import_path fs name rel_path]\<rparr>) of
                    None \<Rightarrow> None
                  | Some (Inl FileNotFoundError, st') \<Rightarrow>
                      copycontent_withimports_tag depth fs name lines bad False
                        (st'\<lparr>logged := logged st' @ [Error_couldnt_import rel_path name]\<rparr>)
                  | Some (Inl e, st') \<Rightarrow> Some (Inl e, st')
                  | Some (Inr ok, st') \<Rightarrow>
                      copycontent_withimports_tag depth fs name lines bad
                        (if \<not> ok then False else success) st'))))"

text \<open>
  \<^verbatim>\<open>import_and_copy_file(source_path, destination_path)\<close>. Inside the \<^verbatim>\<open>try\<close>
  block the destination is opened for writing first, then the source for reading, then
  the content is copied. What is written reaches the destination when \<open>dest_f\<close> is
  closed, on every way out of the \<^verbatim>\<open>with\<close> block. \<open>handler\<close> is the pair of
  \<^verbatim>\<open>except\<close> clauses, entered with the file system and the log as they are at the
  raise: the decoding error leads to \<^verbatim>\<open>shutil.copy2\<close> and leaves \<open>success\<close> as it
  was set at the start, the missing file is logged under the name of the source, any
  other exception goes on to the caller. The result is the exception that escapes or the
  value returned, the file system and the log.
\<close>

definition handler ::
  "exn \<Rightarrow> filesys \<Rightarrow> log_record list \<Rightarrow> string \<Rightarrow> string
     \<Rightarrow> (exn + bool) \<times> filesys \<times> log_record list" where
  "handler e fs log source_path destination_path =
     (case e of
        UnicodeDecodeError \<Rightarrow>
          (case copy2 fs source_path destination_path of
             Inl e' \<Rightarrow> (Inl e', fs, log @ [Debug_direct_copy source_path])
           | Inr fs' \<Rightarrow> (Inr True, fs', log @ [Debug_direct_copy source_path]))
      | FileNotFoundError \<Rightarrow> (Inr False, fs, log @ [Error_couldnt_open source_path])
      | _ \<Rightarrow> (Inl e, fs, log))"

definition closed :: "filesys \<Rightarrow> string \<Rightarrow> copy_state \<Rightarrow> filesys" where
  "closed fs destination_path st =
     fs\<lparr>files := (files fs)(normpath destination_path \<mapsto> Text (concat (written st)))\<rparr>"

definition import_and_copy_file ::
  "nat \<Rightarrow> filesys \<Rightarrow> string \<Rightarrow> string \<Rightarrow> ((exn + bool) \<times> filesys \<times> log_record list) option" where
  "import_and_copy_file depth fs source_path destination_path =
     (case open_for_writing fs destination_path of
        Inl e \<Rightarrow> Some (handler e fs [] source_path destination_path)
      | Inr fs1 \<Rightarrow>
         (case open_for_reading fs1 source_path of
            Inl e \<Rightarrow> Some (handler e fs1 [] source_path destination_path)
          | Inr source_f \<Rightarrow>
             (case copycontent_withimports_tag depth fs1 source_path (node_lines source_f)
                     (node_undecodable source_f) True \<lparr>written = [], logged = [], opened = []\<rparr> of
                None \<Rightarrow> None
              | Some (Inr success, st) \<Rightarrow>
                  Some (Inr success, closed fs1 destination_path st, logged st)
              | Some (Inl e, st) \<Rightarrow>
                  Some (handler e (closed fs1 destination_path st) (logged st)
                          source_path destination_path))))"

subsection \<open>Import trees that end, and import trees with an undecodable file\<close>



subsection \<open>Example file systems\<close>






definition fs_missing_and_undecodable :: filesys where
  "fs_missing_and_undecodable =
     \<lparr>files = [''/doc/page.md'' \<mapsto> Text (''##IMPORT missing.md'' @ [nl] @ ''##IMPORT logo.png'' @ [nl]),
               ''/doc/logo.png'' \<mapsto> Binary [] ''PNG'',
               ''/doc'' \<mapsto> Directory, ''/out'' \<mapsto> Directory],
      realpath = (\<lambda>p. p)\<rparr>"

section \<open>Properties of the link prepender\<close>

lemma prepend_loop_past_two:
  "2 < n \<Longrightarrow> prepend_loop n message url ls = ls"
  by (induction ls arbitrary: n) auto

lemma prepend_external_link_two_or_more:
  "prepend_external_link (l1 # l2 # ls) message url
     = l1 # annotation_line message url # l2 # ls"
  by (simp add: prepend_external_link_def prepend_loop_past_two)

text \<open>
  C4. On a document of exactly one line the counter never reaches 2 inside the loop, so
  the annotation line is not written: the output is the single line alone, although the
  loop's comment says the message is added as a second line. On the two-line document of
  the example the annotation is the new second line.
\<close>

theorem prepend_external_link_single_line:
  "prepend_external_link [''Title'' @ [nl]] ''source'' ''http://x'' = [''Title'' @ [nl]]
   \<and> prepend_external_link [''Title'' @ [nl], ''Body'' @ [nl]] ''source'' ''http://x''
       = [''Title'' @ [nl], ''> [source](http://x)'' @ [nl], ''Body'' @ [nl]]"
  by (simp add: prepend_external_link_def annotation_line_def)

section \<open>Properties of the importing copier\<close>

subsection \<open>Opening, lines without directive, and the destination handle\<close>

lemma open_for_reading_text [simp]:
  "lookup fs p = Some (Text t) \<Longrightarrow> open_for_reading fs p = Inr (Text t)"
  "lookup fs p = Some (Binary ls raw) \<Longrightarrow> open_for_reading fs p = Inr (Binary ls raw)"
  "lookup fs p = None \<Longrightarrow> open_for_reading fs p = Inl FileNotFoundError"
  "lookup fs p = Some Directory \<Longrightarrow> open_for_reading fs p = Inl IsADirectoryError"
  by (simp_all add: open_for_reading_def)








subsection \<open>One line with a directive\<close>





subsection \<open>What a call that returns has done\<close>

text \<open>
  No exception other than the decoding error and the refusal of a directory leaves
  \<^verbatim>\<open>_copycontent_withimports_tag\<close>. A call that returns normally has read text
  files only, and it returns false exactly when it has logged a failed import.
\<close>

lemma returns_facts:
  "copycontent_withimports_tag depth fs name lines bad success st = Some (r, st') \<Longrightarrow>
   r \<noteq> Inl FileNotFoundError \<and> r \<noteq> Inl SameFileError \<and> r \<noteq> Inl NotADirectoryError
   \<and> (\<forall>b. r = Inr b \<longrightarrow>
         \<not> bad
         \<and> (\<forall>p\<in>set (opened st'). p \<in> set (opened st) \<or> (\<exists>s. lookup fs p = Some (Text s)))
         \<and> (\<exists>new. logged st' = logged st @ new \<and> (b \<longleftrightarrow> success \<and> new = [])))"
proof (induction depth arbitrary: name lines bad success st r st')
  case 0
  then show ?case
  proof (induction lines arbitrary: success st)
    case Nil
    then show ?case by (auto split: if_splits)
  next
    case (Cons line lines)
    show ?case
    proof (cases "import_re_findall line")
      case Nil
      with Cons.prems have "copycontent_withimports_tag 0 fs name lines bad success
          (st\<lparr>written := written st @ [line]\<rparr>) = Some (r, st')" by simp
      from Cons.IH [OF this] show ?thesis by simp
    next
      case (Cons rel others)
      show ?thesis
      proof (cases "lookup fs (import_path fs name rel)")
        case None
        with Cons.prems Cons have "copycontent_withimports_tag 0 fs name lines bad False
          (st\<lparr>logged := logged st @ [Error_couldnt_import rel name]\<rparr>) = Some (r, st')" by simp
        from Cons.IH [OF this] show ?thesis by auto
      next
        case (Some f)
        with Cons.prems Cons show ?thesis
          by (cases f) (auto simp: open_for_reading_def)
      qed
    qed
  qed
next
  case (Suc d)
  from Suc.prems show ?case
  proof (induction lines arbitrary: success st)
    case Nil
    then show ?case by (auto split: if_splits)
  next
    case (Cons line lines)
    show ?case
    proof (cases "import_re_findall line")
      case Nil
      with Cons.prems have "copycontent_withimports_tag (Suc d) fs name lines bad success
          (st\<lparr>written := written st @ [line]\<rparr>) = Some (r, st')" by simp
      from Cons.IH [OF this] show ?thesis by simp
    next
      case (Cons rel others)
      let ?p = "import_path fs name rel"
      show ?thesis
      proof (cases "lookup fs ?p")
        case None
        with Cons.prems Cons have "copycontent_withimports_tag (Suc d) fs name lines bad False
          (st\<lparr>logged := logged st @ [Error_couldnt_import rel name]\<rparr>) = Some (r, st')" by simp
        from Cons.IH [OF this] show ?thesis by auto
      next
        case (Some f)
        show ?thesis
        proof (cases "f = Directory")
          case True
          with Cons.prems Cons Some show ?thesis by (auto simp: open_for_reading_def)
        next
          case False
          with Some have o: "open_for_reading fs ?p = Inr f"
            by (cases f) (auto simp: open_for_reading_def)
          from Cons.prems Cons o obtain r1 st1 where
            inner: "copycontent_withimports_tag d fs ?p (node_lines f) (node_undecodable f) True
                      (st\<lparr>opened := opened st @ [?p]\<rparr>) = Some (r1, st1)"
            by (auto split: option.splits)
          note i = Suc.IH [OF inner]
          show ?thesis
          proof (cases r1)
            case (Inl e)
            with i have e: "e = UnicodeDecodeError \<or> e = IsADirectoryError"
              by (cases e) auto
            with Cons.prems Cons o inner Inl show ?thesis by auto
          next
            case (Inr ok)
            with Cons.prems Cons o inner have
              rest: "copycontent_withimports_tag (Suc d) fs name lines bad
                       (if \<not> ok then False else success) st1 = Some (r, st')" by simp
            from i Inr have t: "\<not> node_undecodable f"
              "\<forall>p\<in>set (opened st1). p \<in> set (opened st) \<or> p = ?p \<or> (\<exists>s. lookup fs p = Some (Text s))"
              and l1: "\<exists>new. logged st1 = logged st @ new \<and> (ok \<longleftrightarrow> new = [])"
              by auto
            from t(1) False Some have "\<exists>s. lookup fs ?p = Some (Text s)"
              by (cases f) (auto simp: node_undecodable_def)
            with t(2) have t2: "\<forall>p\<in>set (opened st1). p \<in> set (opened st) \<or> (\<exists>s. lookup fs p = Some (Text s))"
              by blast
            from l1 obtain new1 where n1: "logged st1 = logged st @ new1" "ok \<longleftrightarrow> new1 = []" by blast
            note c = Cons.IH [OF rest]
            show ?thesis
            proof (intro conjI allI impI)
              fix b assume b: "r = Inr b"
              with c obtain new2 where n2: "logged st' = logged st1 @ new2"
                "b \<longleftrightarrow> (if \<not> ok then False else success) \<and> new2 = []" by auto
              from n1 n2 have "logged st' = logged st @ (new1 @ new2) \<and> (b \<longleftrightarrow> success \<and> new1 @ new2 = [])"
                by auto
              then show "\<exists>new. logged st' = logged st @ new \<and> (b \<longleftrightarrow> success \<and> new = [])" by blast
              from c b t2 show "\<forall>p\<in>set (opened st'). p \<in> set (opened st) \<or> (\<exists>s. lookup fs p = Some (Text s))"
                by blast
              from c b show "\<not> bad" by blast
            qed (use c in auto)
          qed
        qed
      qed
    qed
  qed
qed

lemma returns_only_text:
  "copycontent_withimports_tag depth fs name lines bad success st = Some (Inr b, st') \<Longrightarrow>
   \<not> bad \<and> (\<forall>p\<in>set (opened st'). p \<in> set (opened st) \<or> (\<exists>s. lookup fs p = Some (Text s)))"
  using returns_facts [of depth fs name lines bad success st "Inr b" st'] by simp

lemma returns_false_iff_import_failed:
  "copycontent_withimports_tag depth fs name lines bad success st = Some (Inr b, st') \<Longrightarrow>
   \<exists>new. logged st' = logged st @ new \<and> (b \<longleftrightarrow> success \<and> new = [])"
  using returns_facts [of depth fs name lines bad success st "Inr b" st'] by simp

subsection \<open>Enough depth gives a result\<close>



subsection \<open>Claims about the importing copier\<close>

lemmas path_eval = normpath_def norm_step_def lookup_def import_path_def dirname_def
  path_join_def suffix_to_prefix Let_def

lemmas copier_eval = import_and_copy_file_def open_for_writing_def open_for_reading_def
  truncated_def closed_def handler_def copy2_def node_lines_def node_undecodable_def
  path_eval nl_def cr_def

text \<open>
  C1. The text file \<^verbatim>\<open>/doc/page.md\<close> imports \<^verbatim>\<open>missing.md\<close>, which does not exist,
  and then \<^verbatim>\<open>logo.png\<close>, which cannot be decoded. The failed import is logged, but
  the decoding error of the second import leaves \<^verbatim>\<open>_copycontent_withimports_tag\<close>
  before it returns, so \<open>success\<close> keeps its initial value: the call returns true and
  the destination is a copy of the source with both directives in it.
\<close>

theorem missing_import_then_undecodable_import_returns_true:
  "import_and_copy_file 1 fs_missing_and_undecodable ''/doc/page.md'' ''/out/page.md''
     = Some (Inr True,
             fs_missing_and_undecodable\<lparr>files := (files fs_missing_and_undecodable)
               (''/out/page.md'' \<mapsto> Text (''##IMPORT missing.md'' @ [nl] @ ''##IMPORT logo.png'' @ [nl]))\<rparr>,
             [Error_couldnt_import ''missing.md'' ''/doc/page.md'', Debug_direct_copy ''/doc/page.md''])
   \<and> files fs_missing_and_undecodable
         (import_path fs_missing_and_undecodable ''/doc/page.md'' ''missing.md'') = None"
  by (simp add: copier_eval fs_missing_and_undecodable_def)











section \<open>Properties of the link normaliser\<close>

lemma length_replace_scan_le:
  "old \<noteq> [] \<Longrightarrow> length new \<le> length old \<Longrightarrow> length (replace_scan old new s) \<le> length s"
proof (induction old new s rule: replace_scan.induct)
  case (1 old new)
  then show ?case by simp
next
  case (2 old new c cs)
  show ?case
  proof (cases "prefix old (c # cs)")
    case True
    then have "length old \<le> Suc (length cs)" using prefix_length_le by fastforce
    with 2 True show ?thesis by (auto simp: Suc_le_eq)
  next
    case False
    with 2 show ?thesis by simp
  qed
qed

lemma length_replace_scan_less:
  "old \<noteq> [] \<Longrightarrow> length new < length old \<Longrightarrow> s = pre @ old @ post \<Longrightarrow>
   length (replace_scan old new s) < length s"
proof (induction old new s arbitrary: pre rule: replace_scan.induct)
  case (1 old new)
  then show ?case by simp
next
  case (2 old new c cs)
  show ?case
  proof (cases "prefix old (c # cs)")
    case True
    then have l: "length old \<le> Suc (length cs)" using prefix_length_le by fastforce
    have "length (replace_scan old new (drop (length old - 1) cs)) \<le> length (drop (length old - 1) cs)"
      using "2.prems"(1,2) by (intro length_replace_scan_le) auto
    moreover have "replace_scan old new (c # cs) = new @ replace_scan old new (drop (length old - 1) cs)"
      using True by simp
    ultimately show ?thesis using l "2.prems"(2) by simp
  next
    case False
    with "2.prems" obtain pre' where "pre = c # pre'" by (cases pre) auto
    with "2.prems" have "cs = pre' @ old @ post" by simp
    with "2.IH"(2) [OF False "2.prems"(1,2) this] False show ?thesis by simp
  qed
qed

lemma match_link_Some:
  "match_link cs = Some g \<Longrightarrow> prefix g cs \<and> 4 \<le> length g"
proof (cases cs)
  case Nil
  then show "match_link cs = Some g \<Longrightarrow> ?thesis" by simp
next
  case (Cons c r)
  assume "match_link cs = Some g"
  with Cons have g: "g = c # takeWhile (\<lambda>x. x \<noteq> CHR '')'') r"
    and s: "suffix ''.md'' (takeWhile (\<lambda>x. x \<noteq> CHR '')'') r)"
    by (auto simp: Let_def split: if_splits)
  from s have "3 \<le> length (takeWhile (\<lambda>x. x \<noteq> CHR '')'') r)"
    using suffix_length_le by fastforce
  moreover have "prefix (takeWhile (\<lambda>x. x \<noteq> CHR '')'') r) r"
    by (metis prefixI takeWhile_dropWhile_id)
  ultimately show ?thesis using g Cons by simp
qed

lemma findall_occurs:
  "t \<in> set (relative_markdown_links_findall l) \<Longrightarrow> (\<exists>pre post. l = pre @ t @ post) \<and> 4 \<le> length t"
proof (induction l rule: relative_markdown_links_findall.induct)
  case 1
  then show ?case by simp
next
  case (2 c cs)
  show ?case
  proof (cases "c = CHR ''('' \<and> match_link cs \<noteq> None")
    case True
    then obtain g where g: "match_link cs = Some g" by auto
    from match_link_Some [OF g] obtain rest where rest: "cs = g @ rest" and len: "4 \<le> length g"
      by (auto elim: prefixE)
    show ?thesis
    proof (cases "t = g")
      case True
      with rest len show ?thesis by (metis append_Cons append_Nil)
    next
      case False
      with "2.prems" True g have "t \<in> set (relative_markdown_links_findall (drop (length g + 1) cs))"
        by simp
      from "2.IH"(2) [OF _ g this] True obtain pre post where
        "drop (length g + 1) cs = pre @ t @ post" and t: "4 \<le> length t" by auto
      then have "c # cs = (c # take (length g + 1) cs @ pre) @ t @ post"
        by (metis append_Cons append_assoc append_take_drop_id)
      with t show ?thesis by blast
    qed
  next
    case False
    with "2.prems" have "t \<in> set (relative_markdown_links_findall cs)"
      by (auto split: option.splits if_splits)
    moreover from False have "c \<noteq> CHR ''('' \<or> (c = CHR ''('' \<and> match_link cs = None)" by auto
    ultimately obtain pre post where "cs = pre @ t @ post" and t: "4 \<le> length t"
      using "2.IH"(1,3) by auto
    then have "c # cs = (c # pre) @ t @ post" by simp
    with t show ?thesis by blast
  qed
qed

lemma length_fold_replace_le:
  "\<forall>t\<in>set ts. t \<noteq> [] \<Longrightarrow>
   length (fold (\<lambda>t l. str_replace t (strip_md t) l) ts x) \<le> length x"
proof (induction ts arbitrary: x)
  case Nil
  then show ?case by simp
next
  case (Cons t ts)
  then have "length (str_replace t (strip_md t) x) \<le> length x"
    by (simp add: str_replace_def strip_md_def length_replace_scan_le)
  moreover have "length (fold (\<lambda>t l. str_replace t (strip_md t) l) ts (str_replace t (strip_md t) x))
                   \<le> length (str_replace t (strip_md t) x)"
    using Cons by simp
  ultimately show ?case by simp
qed

lemma reformat_line_shrinks:
  assumes "relative_markdown_links_findall l \<noteq> []"
  shows "length (reformat_line l) < length l"
proof -
  from assms obtain t ts where ts: "relative_markdown_links_findall l = t # ts"
    by (cases "relative_markdown_links_findall l") auto
  have occ: "\<And>u. u \<in> set (t # ts) \<Longrightarrow> (\<exists>pre post. l = pre @ u @ post) \<and> 4 \<le> length u"
    using findall_occurs [of _ l] ts by simp
  from occ [of t] obtain pre post where l: "l = pre @ t @ post" and t: "4 \<le> length t" by auto
  from t have "length (str_replace t (strip_md t) l) < length l"
    using length_replace_scan_less [of t "strip_md t" l pre post] l
    by (auto simp: str_replace_def strip_md_def)
  moreover have "\<forall>u\<in>set ts. u \<noteq> []" using occ by fastforce
  then have "length (fold (\<lambda>t l. str_replace t (strip_md t) l) ts (str_replace t (strip_md t) l))
          \<le> length (str_replace t (strip_md t) l)"
    by (rule length_fold_replace_le)
  ultimately show ?thesis by (simp add: reformat_line_def ts)
qed

lemma reformat_line_fixed_iff:
  "reformat_line l = l \<longleftrightarrow> relative_markdown_links_findall l = []"
proof
  assume "reformat_line l = l"
  then show "relative_markdown_links_findall l = []"
    using reformat_line_shrinks [of l] by auto
next
  assume "relative_markdown_links_findall l = []"
  then show "reformat_line l = l" by (simp add: reformat_line_def)
qed


lemmas link_eval = reformat_links_def reformat_line_def str_replace_def strip_md_def
  suffix_to_prefix nl_def

text \<open>
  C6, as stated, fails: a link target ending in \<^verbatim>\<open>.md.md\<close> loses one suffix at each
  application.
\<close>

theorem reformat_links_not_idempotent:
  "reformat_links [''[x](a.md.md)''] = [''[x](a.md)'']
   \<and> reformat_links (reformat_links [''[x](a.md.md)'']) = [''[x](a)'']
   \<and> reformat_links (reformat_links [''[x](a.md.md)'']) \<noteq> reformat_links [''[x](a.md.md)'']"
  by (simp add: link_eval)

text \<open>
  C6, amended. Every replacement shortens the line, so a line is left as it is exactly
  when no relative markdown link is found in it: a second application of
  \<^verbatim>\<open>reformat_links\<close> gives what the first gave if and only if the first leaves no
  line with a relative markdown link.
\<close>

theorem reformat_links_twice_same_iff_no_link_left:
  "reformat_links (reformat_links doc) = reformat_links doc
   \<longleftrightarrow> (\<forall>l\<in>set (reformat_links doc). relative_markdown_links_findall l = [])"
proof -
  have "map reformat_line xs = xs \<longleftrightarrow> (\<forall>l\<in>set xs. reformat_line l = l)" for xs
    by (induction xs) auto
  then show ?thesis
    unfolding reformat_links_def by (simp add: reformat_line_fixed_iff)
qed

theorem reformat_links_twice_same_iff_no_link_left_witness:
  "relative_markdown_links_findall ''[guide](install)'' = []
   \<and> reformat_links [''[guide](install.md)''] = [''[guide](install)'']
   \<and> reformat_links (reformat_links [''[guide](install.md)'']) = reformat_links [''[guide](install.md)'']"
proof -
  have a: "reformat_links [''[guide](install.md)''] = [''[guide](install)'']"
    by (simp add: link_eval)
  have b: "relative_markdown_links_findall ''[guide](install)'' = []"
    by (simp add: link_eval)
  from reformat_links_twice_same_iff_no_link_left [of "[''[guide](install.md)'']"] a b show ?thesis by simp
qed



section \<open>Properties of the token substituter\<close>

subsection \<open>Scanning and replacing over literal text and placeholders\<close>

lemma replace_scan_skip:
  "\<not> doubled x s \<Longrightarrow> s = [] \<or> last s \<noteq> x \<Longrightarrow>
   replace_scan (x # x # old') new (s @ t) = s @ replace_scan (x # x # old') new t"
proof (induction s)
  case Nil
  then show ?case by simp
next
  case (Cons a s)
  show ?case
  proof (cases s)
    case Nil
    with Cons.prems show ?thesis by simp
  next
    case (Cons b s')
    with Cons.prems Cons.IH show ?thesis by auto
  qed
qed

lemma replace_scan_hit:
  "old \<noteq> [] \<Longrightarrow> replace_scan old new (old @ t) = new @ replace_scan old new t"
  by (cases old) auto

lemma variable_findall_skip:
  "\<not> doubled opn s \<Longrightarrow> s = [] \<or> last s \<noteq> opn \<Longrightarrow>
   variable_findall opn cls (s @ t) = variable_findall opn cls t"
proof (induction s)
  case Nil
  then show ?case by simp
next
  case (Cons a s)
  show ?case
  proof (cases s)
    case Nil
    with Cons.prems show ?thesis by (cases t) auto
  next
    case (Cons b s')
    with Cons.prems Cons.IH show ?thesis by auto
  qed
qed

lemma variable_findall_hit:
  assumes "opn \<notin> set n" and "cls \<notin> set n"
  shows "variable_findall opn cls (opn # opn # n @ cls # cls # t) = n # variable_findall opn cls t"
proof -
  have "takeWhile (\<lambda>z. z \<noteq> opn \<and> z \<noteq> cls) (n @ cls # cls # t) = n"
    using assms by (subst takeWhile_append2) auto
  moreover have "dropWhile (\<lambda>z. z \<noteq> opn \<and> z \<noteq> cls) (n @ cls # cls # t) = cls # cls # t"
    using assms by (subst dropWhile_append2) auto
  ultimately show ?thesis by simp
qed

lemma closed_name_prefix:
  "cls \<notin> set n \<Longrightarrow> cls \<notin> set n' \<Longrightarrow> prefix (n @ [cls, cls]) (n' @ cls # cls # t) \<Longrightarrow> n = n'"
proof (induction n arbitrary: n')
  case Nil
  then show ?case by (cases n') auto
next
  case (Cons a n)
  then show ?case by (cases n') auto
qed

lemma doubled_absent: "c \<notin> set s \<Longrightarrow> \<not> doubled c s"
  by (induction c s rule: doubled.induct) auto

lemma doubled_Cons_other: "x \<noteq> c \<Longrightarrow> doubled c (x # s) = doubled c s"
  by (cases s) auto

lemma doubled_append_other:
  "x \<noteq> c \<Longrightarrow> doubled c (s @ x # t) = (doubled c s \<or> doubled c t)"
  by (induction c s rule: doubled.induct) (auto simp: doubled_Cons_other)

lemma calm_pattern_other_kind:
  assumes "k' \<noteq> k" and "\<not> doubled (opener k) n"
  shows "calm k (pattern k' n)"
proof -
  have ne: "opener k' \<noteq> opener k" "closer k' \<noteq> opener k"
    using assms(1) by (cases k; cases k'; simp)+
  have "pattern k' n = [opener k', opener k'] @ (n @ closer k' # [closer k'])"
    by (simp add: pattern_def)
  moreover have "\<not> doubled (opener k) (n @ closer k' # [closer k'])"
    using ne assms(2) by (simp add: doubled_append_other)
  ultimately have "\<not> doubled (opener k) (pattern k' n)"
    using ne by (simp add: doubled_Cons_other)
  then show ?thesis using ne by (simp add: calm_def pattern_def)
qed

lemma pattern_not_empty: "pattern k n \<noteq> []"
  by (simp add: pattern_def)

lemma render_line_Cons: "render_line (t # toks) = render t @ render_line toks"
  by (simp add: render_line_def)

lemma replace_scan_calm:
  assumes "calm k s"
  shows "replace_scan (pattern k n) new (s @ t) = s @ replace_scan (pattern k n) new t"
  using assms replace_scan_skip [of "opener k" s "n @ [closer k, closer k]" new t]
  by (simp add: calm_def pattern_def)

lemma replace_scan_other_name:
  assumes n: "opener k \<notin> set n" "closer k \<notin> set n"
    and n': "opener k \<notin> set n'" "closer k \<notin> set n'"
    and ne: "n \<noteq> n'"
  shows "replace_scan (pattern k n) new (pattern k n' @ t) = pattern k n' @ replace_scan (pattern k n) new t"
proof -
  let ?o = "opener k" and ?c = "closer k"
  have oc: "?o \<noteq> ?c" by (cases k) auto
  have p0: "\<not> prefix (pattern k n) (pattern k n' @ t)"
    using closed_name_prefix [OF n(2) n'(2), of t] ne by (auto simp: pattern_def)
  have p1: "\<not> prefix (pattern k n) (?o # n' @ ?c # ?c # t)"
    using n'(1) oc by (cases n') (auto simp: pattern_def)
  have "calm k (n' @ [?c, ?c])"
    using n'(1) oc by (simp add: calm_def doubled_absent)
  then have "replace_scan (pattern k n) new ((n' @ [?c, ?c]) @ t)
               = (n' @ [?c, ?c]) @ replace_scan (pattern k n) new t"
    by (rule replace_scan_calm)
  with p0 p1 show ?thesis by (simp add: pattern_def)
qed

lemma str_replace_render_line:
  assumes "\<forall>t\<in>set toks. scannable k t" and "opener k \<notin> set n" and "closer k \<notin> set n"
  shows "str_replace (pattern k n) new (render_line toks)
           = render_line (map (\<lambda>t. if t = Placeholder k n then Lit new else t) toks)"
proof -
  have "replace_scan (pattern k n) new (render_line toks)
           = render_line (map (\<lambda>t. if t = Placeholder k n then Lit new else t) toks)"
    using assms(1)
  proof (induction toks)
    case Nil
    then show ?case by (simp add: render_line_def)
  next
    case (Cons t toks)
    then have IH: "replace_scan (pattern k n) new (render_line toks)
           = render_line (map (\<lambda>t. if t = Placeholder k n then Lit new else t) toks)"
      and sc: "scannable k t" by auto
    show ?case
    proof (cases t)
      case (Lit s)
      with sc IH show ?thesis
        by (simp add: render_line_Cons replace_scan_calm)
    next
      case (Placeholder k' n')
      show ?thesis
      proof (cases "k' = k")
        case False
        with sc Placeholder have "calm k (pattern k' n')" by (simp add: calm_pattern_other_kind)
        with False IH Placeholder show ?thesis
          by (simp add: render_line_Cons replace_scan_calm)
      next
        case True
        show ?thesis
        proof (cases "n' = n")
          case True
          with \<open>k' = k\<close> IH Placeholder show ?thesis
            by (simp add: render_line_Cons replace_scan_hit pattern_not_empty)
        next
          case False
          with \<open>k' = k\<close> sc IH Placeholder assms(2,3) show ?thesis
            by (simp add: render_line_Cons replace_scan_other_name)
        qed
      qed
    qed
  qed
  then show ?thesis by (simp add: str_replace_def pattern_not_empty)
qed

lemma variable_findall_render_line:
  assumes "\<forall>t\<in>set toks. scannable k t"
  shows "variable_findall (opener k) (closer k) (render_line toks) = names k toks"
  using assms
proof (induction toks)
  case Nil
  then show ?case by (simp add: render_line_def)
next
  case (Cons t toks)
  then have IH: "variable_findall (opener k) (closer k) (render_line toks) = names k toks"
    and sc: "scannable k t" by auto
  show ?case
  proof (cases t)
    case (Lit s)
    with sc IH show ?thesis
      by (simp add: render_line_Cons variable_findall_skip calm_def)
  next
    case (Placeholder k' n)
    show ?thesis
    proof (cases "k' = k")
      case True
      with sc Placeholder have "opener k \<notin> set n" "closer k \<notin> set n" by auto
      with IH Placeholder True show ?thesis
        by (simp add: render_line_Cons pattern_def variable_findall_hit del: variable_findall.simps)
    next
      case False
      with sc Placeholder have "calm k (pattern k' n)" by (simp add: calm_pattern_other_kind)
      with IH Placeholder False show ?thesis
        by (simp add: render_line_Cons variable_findall_skip calm_def)
    qed
  qed
qed

lemma names_scannable:
  "\<forall>t\<in>set toks. scannable k t \<Longrightarrow> n \<in> set (names k toks) \<Longrightarrow>
   opener k \<notin> set n \<and> closer k \<notin> set n"
  by (induction k toks rule: names.induct) (auto split: if_splits)

lemma names_placeholder:
  "Placeholder k n \<in> set toks \<longleftrightarrow> n \<in> set (names k toks)"
  by (induction k toks rule: names.induct) auto

lemma fill_after_replace:
  "(if fill k vars S t = Placeholder k n then Lit (value_of vars n) else fill k vars S t)
     = fill k vars (insert n S) t"
  by (cases t) auto

lemma scannable_fill:
  assumes "scannable k t" and "\<forall>n\<in>S. calm k (value_of vars n)"
  shows "scannable k (fill k vars S t)"
  using assms by (cases t) auto

lemma fold_replace_step:
  assumes "\<forall>t\<in>set toks. scannable k t"
    and "\<forall>n\<in>set ks. opener k \<notin> set n \<and> closer k \<notin> set n"
    and "\<forall>n\<in>S \<union> set ks. calm k (value_of vars n)"
  shows "fold (replace_step (pattern k) vars) ks (render_line (map (fill k vars S) toks), unfound)
           = (render_line (map (fill k vars (S \<union> set ks)) toks),
              unfound @ filter (\<lambda>n. vars n = None) ks)"
  using assms(2,3)
proof (induction ks arbitrary: S unfound)
  case Nil
  then show ?case by simp
next
  case (Cons n ks)
  have sc: "\<forall>t\<in>set (map (fill k vars S) toks). scannable k t"
    using assms(1) Cons.prems(2) by (auto intro!: scannable_fill)
  from Cons.prems have n: "opener k \<notin> set n" "closer k \<notin> set n" by auto
  have step: "replace_step (pattern k) vars n (render_line (map (fill k vars S) toks), unfound)
          = (render_line (map (fill k vars (insert n S)) toks),
             unfound @ filter (\<lambda>n. vars n = None) [n])"
    using str_replace_render_line [OF sc n, of "value_of vars n"]
    by (cases "vars n") (simp_all add: replace_step_def value_of_def [of vars n] fill_after_replace comp_def)
  have "fold (replace_step (pattern k) vars) (n # ks) (render_line (map (fill k vars S) toks), unfound)
          = fold (replace_step (pattern k) vars) ks
              (render_line (map (fill k vars (insert n S)) toks), unfound @ filter (\<lambda>n. vars n = None) [n])"
    by (simp only: fold_simps step)
  also have "\<dots> = (render_line (map (fill k vars (insert n S \<union> set ks)) toks),
                    (unfound @ filter (\<lambda>n. vars n = None) [n]) @ filter (\<lambda>n. vars n = None) ks)"
    using Cons.prems by (intro Cons.IH) auto
  finally show ?case by simp
qed

lemma fill_nothing: "fill k vars {} t = t"
  by (cases t) auto

lemma fill_all_names:
  "t \<in> set toks \<Longrightarrow> fill k vars (set (names k toks)) t = fill k vars UNIV t"
  by (cases t) (auto simp: names_placeholder)

lemma replace_from_map_render_line:
  assumes sc: "\<forall>t\<in>set toks. scannable k t"
    and vals: "\<forall>n\<in>set (names k toks). calm k (value_of vars n)"
  shows "replace_from_map (render_line toks) (variable_findall (opener k) (closer k)) (pattern k) vars
           = (render_line (map (fill k vars UNIV) toks), filter (\<lambda>n. vars n = None) (names k toks))"
proof -
  have ks: "\<forall>n\<in>set (names k toks). opener k \<notin> set n \<and> closer k \<notin> set n"
    using names_scannable [OF sc] by blast
  have "fold (replace_step (pattern k) vars) (names k toks) (render_line (map (fill k vars {}) toks), [])
          = (render_line (map (fill k vars ({} \<union> set (names k toks))) toks),
             [] @ filter (\<lambda>n. vars n = None) (names k toks))"
    using vals by (intro fold_replace_step [OF sc ks]) simp
  moreover have "map (fill k vars {}) toks = toks"
    by (simp add: fill_nothing map_idI)
  moreover have "map (fill k vars (set (names k toks))) toks = map (fill k vars UNIV) toks"
    by (simp add: fill_all_names)
  ultimately show ?thesis
    by (simp add: replace_from_map_def variable_findall_render_line [OF sc])
qed

lemma names_fill_other: "k' \<noteq> k \<Longrightarrow> names k (map (fill k' vars S) toks) = names k toks"
  by (induction k toks rule: names.induct) auto

lemma render_fill_both:
  "render (fill Required vars UNIV (fill Optional vars UNIV t)) = substituted vars t"
  by (cases t) (auto, metis kind.exhaust)

lemma optional_as_kind:
  "optional_variable_findall = variable_findall (opener Optional) (closer Optional)"
  "optional_pattern = pattern Optional"
  by (simp_all add: optional_variable_findall_def optional_pattern_def fun_eq_iff pattern_def)

lemma required_as_kind:
  "required_variable_findall = variable_findall (opener Required) (closer Required)"
  "required_pattern = pattern Required"
  by (simp_all add: required_variable_findall_def required_pattern_def fun_eq_iff pattern_def)

lemma well_formed_scannable_optional: "well_formed t \<Longrightarrow> scannable Optional t"
  by (cases t rule: well_formed.cases) (auto simp: quiet_def)

lemma well_formed_fill_scannable_required:
  assumes "well_formed t"
    and "\<forall>n. t = Placeholder Optional n \<longrightarrow> calm Required (value_of vars n)"
  shows "scannable Required (fill Optional vars UNIV t)"
  using assms by (cases t rule: well_formed.cases) (auto simp: quiet_def)

lemma replace_line_content_tokens:
  assumes wf: "\<forall>t\<in>set toks. well_formed t" and vals: "values_fit device_vars toks"
  shows "replace_line_content (render_line toks) filename device_name device_vars
           = (concat (map (substituted device_vars) toks),
              (\<forall>n\<in>set (names Required toks). device_vars n \<noteq> None),
              map (\<lambda>keyword. Info_optional_unmapped device_name keyword filename)
                (filter (\<lambda>n. device_vars n = None) (names Optional toks))
              @ map (\<lambda>keyword. Error_required_unmapped device_name keyword filename)
                  (filter (\<lambda>n. device_vars n = None) (names Required toks)))"
proof -
  let ?toks1 = "map (fill Optional device_vars UNIV) toks"
  from vals have vo: "\<forall>n\<in>set (names Optional toks). quiet (value_of device_vars n)"
    and vr: "\<forall>n\<in>set (names Required toks). calm Required (value_of device_vars n)"
    by (simp_all add: values_fit_def list_all_iff)
  have sco: "\<forall>t\<in>set toks. scannable Optional t"
    using wf well_formed_scannable_optional by blast
  have scr: "\<forall>t\<in>set ?toks1. scannable Required t"
  proof
    fix t assume "t \<in> set ?toks1"
    then obtain t0 where t0: "t0 \<in> set toks" "t = fill Optional device_vars UNIV t0" by auto
    have "\<forall>n. t0 = Placeholder Optional n \<longrightarrow> calm Required (value_of device_vars n)"
      using t0(1) vo by (auto simp: names_placeholder quiet_def)
    with wf t0 show "scannable Required t"
      by (simp add: well_formed_fill_scannable_required)
  qed
  have opt: "replace_from_map (render_line toks) optional_variable_findall optional_pattern device_vars
           = (render_line ?toks1, filter (\<lambda>n. device_vars n = None) (names Optional toks))"
    using replace_from_map_render_line [OF sco, of device_vars] vo
    by (simp add: optional_as_kind quiet_def)
  have req: "replace_from_map (render_line ?toks1) required_variable_findall required_pattern device_vars
           = (render_line (map (fill Required device_vars UNIV) ?toks1),
              filter (\<lambda>n. device_vars n = None) (names Required toks))"
    using replace_from_map_render_line [OF scr, of device_vars] vr
    by (simp add: required_as_kind names_fill_other)
  have "render_line (map (fill Required device_vars UNIV) ?toks1)
          = concat (map (substituted device_vars) toks)"
    by (simp add: render_line_def comp_def render_fill_both)
  with opt req show ?thesis
    by (simp add: replace_line_content_def filter_empty_conv)
qed

lemma replace_variables_loop_tokens:
  assumes wf: "\<forall>toks\<in>set doc. \<forall>t\<in>set toks. well_formed t"
    and vals: "\<forall>toks\<in>set doc. values_fit device_vars toks"
  shows "replace_variables_loop path device_name device_vars (map render_line doc) success
           = (map (\<lambda>toks. concat (map (substituted device_vars) toks)) doc,
              success \<and> (\<forall>toks\<in>set doc. \<forall>n\<in>set (names Required toks). device_vars n \<noteq> None),
              concat (map (\<lambda>toks.
                  map (\<lambda>keyword. Info_optional_unmapped device_name keyword path)
                    (filter (\<lambda>n. device_vars n = None) (names Optional toks))
                  @ map (\<lambda>keyword. Error_required_unmapped device_name keyword path)
                      (filter (\<lambda>n. device_vars n = None) (names Required toks))) doc))"
  using wf vals
proof (induction doc arbitrary: success)
  case Nil
  then show ?case by simp
next
  case (Cons toks doc)
  then have "\<forall>t\<in>set toks. well_formed t" "values_fit device_vars toks" by simp_all
  from replace_line_content_tokens [OF this, of path device_name] Cons
  show ?case by auto
qed

lemmas subst_eval = replace_variables_def replace_line_content_def replace_from_map_def
  replace_step_def str_replace_def optional_variable_findall_def required_variable_findall_def
  optional_pattern_def required_pattern_def

lemmas token_eval = render_line_def pattern_def value_of_def values_fit_def quiet_def calm_def

lemma one_placeholder_pass:
  assumes "calm k pre" and "calm k post" and "opener k \<notin> set name" and "closer k \<notin> set name"
  shows "replace_from_map (pre @ pattern k name @ post) (variable_findall (opener k) (closer k))
           (pattern k) device_vars
         = (pre @ value_of device_vars name @ post, filter (\<lambda>n. device_vars n = None) [name])"
proof -
  let ?toks = "[Lit pre, Placeholder k name, Lit post]"
  have sc: "\<forall>t\<in>set ?toks. scannable k t" using assms by simp
  have l: "render_line ?toks = pre @ pattern k name @ post" by (simp add: render_line_def)
  have f: "variable_findall (opener k) (closer k) (pre @ pattern k name @ post) = [name]"
    using variable_findall_render_line [OF sc] by (simp add: l)
  have r: "str_replace (pattern k name) new (pre @ pattern k name @ post) = pre @ new @ post" for new
    using str_replace_render_line [OF sc assms(3,4), of new] by (simp add: l) (simp add: render_line_def)
  show ?thesis
    by (cases "device_vars name") (simp_all add: replace_from_map_def f replace_step_def r value_of_def)
qed

lemma no_placeholder_pass:
  assumes "\<forall>t\<in>set toks. scannable k t" and "names k toks = []"
  shows "replace_from_map (render_line toks) (variable_findall (opener k) (closer k)) (pattern k)
           device_vars = (render_line toks, [])"
  using variable_findall_render_line [OF assms(1)] assms(2) by (simp add: replace_from_map_def)

lemma replace_variables_single:
  "replace_variables [line] path device_name device_vars
     = (case replace_line_content line path device_name device_vars of
          (line', ok, logs) \<Rightarrow> ([line'], ok, logs))"
  by (simp add: replace_variables_def split: prod.splits)

subsection \<open>Claims about the token substituter\<close>

text \<open>
  C3, as stated, fails. A value that is put in and contains a placeholder found in the
  same pass is replaced in its turn, so \<^verbatim>\<open>[[A]]\<close> does not end as the value of \<open>A\<close>;
  taking out an unmapped optional placeholder can bring two halves of a required
  placeholder together, so that a line without any required placeholder makes the call
  fail; and so does an optional value that closes a doubled opening bracket of the text.
\<close>

theorem replace_variables_value_with_placeholder:
  "replace_variables [''[[A]] [[B]]''] ''page.md'' None [''A'' \<mapsto> ''[[B]]'', ''B'' \<mapsto> ''x'']
     = ([''x x''], True, [])
   \<and> ''x x'' \<noteq> ''[[B]] x''
   \<and> required_variable_findall ''[<<N>>[X]]'' = []
   \<and> replace_variables [''[<<N>>[X]]''] ''page.md'' None Map.empty
       = ([[]], False,
          [Info_optional_unmapped None ''N'' ''page.md'', Error_required_unmapped None ''X'' ''page.md''])
   \<and> required_variable_findall ''[[A <<N>>'' = []
   \<and> replace_variables [''[[A <<N>>''] ''page.md'' None [''N'' \<mapsto> '']]'']
       = ([[]], False, [Error_required_unmapped None ''A '' ''page.md''])"
  by (simp add: subst_eval)

text \<open>
  C3, amended. Every line of the document is made of literal text and placeholders such
  that no new placeholder can arise: in the literal text no opening bracket \<^verbatim>\<open>[\<close> or
  \<^verbatim>\<open><\<close> is doubled or is the last character; a name has no bracket of its own kind,
  and a required name has no doubled \<^verbatim>\<open><\<close>; the value of every optional name on the
  line is like literal text, and the value of every required name on the line has no
  doubled \<^verbatim>\<open>[\<close> and does not end with \<^verbatim>\<open>[\<close>. Single brackets, as in markdown links
  and in tags, are free. Then \<^verbatim>\<open>replace_variables\<close> writes each line with every
  placeholder, required or optional, replaced by the value of its name, or by the empty
  string when the name is not in the map; success is true exactly when every required
  name is in the map; each occurrence of an unmapped name is logged, as information when
  optional and as an error when required. The witness holds the example of the claim and
  a line with a markdown link and a tag.
\<close>

theorem replace_variables_tokens:
  assumes "\<forall>toks\<in>set doc. \<forall>t\<in>set toks. well_formed t"
    and "\<forall>toks\<in>set doc. values_fit device_vars toks"
  shows "replace_variables (map render_line doc) path device_name device_vars
           = (map (\<lambda>toks. concat (map (substituted device_vars) toks)) doc,
              (\<forall>toks\<in>set doc. \<forall>n\<in>set (names Required toks). device_vars n \<noteq> None),
              concat (map (\<lambda>toks.
                  map (\<lambda>keyword. Info_optional_unmapped device_name keyword path)
                    (filter (\<lambda>n. device_vars n = None) (names Optional toks))
                  @ map (\<lambda>keyword. Error_required_unmapped device_name keyword path)
                      (filter (\<lambda>n. device_vars n = None) (names Required toks))) doc))"
  using replace_variables_loop_tokens [OF assms, of path device_name True]
  by (simp add: replace_variables_def)

theorem replace_variables_tokens_witness:
  "replace_variables [''See [[GREETING]], <<NAME>> <<NAME>>!''] ''page.md'' (Some ''device'')
     [''GREETING'' \<mapsto> ''hi'']
   = ([''See hi,  !''], True,
      [Info_optional_unmapped (Some ''device'') ''NAME'' ''page.md'',
       Info_optional_unmapped (Some ''device'') ''NAME'' ''page.md''])
   \<and> replace_variables [''[guide](install.md) for [[DEVICE]], <b><<OPT>></b>''] ''page.md''
       (Some ''device'') [''DEVICE'' \<mapsto> ''<i>Pi</i> [v2]'']
   = ([''[guide](install.md) for <i>Pi</i> [v2], <b></b>''], True,
      [Info_optional_unmapped (Some ''device'') ''OPT'' ''page.md''])"
proof -
  let ?doc1 = "[[Lit ''See '', Placeholder Required ''GREETING'', Lit '', '',
                 Placeholder Optional ''NAME'', Lit '' '', Placeholder Optional ''NAME'', Lit ''!'']]"
  let ?doc2 = "[[Lit ''[guide](install.md) for '', Placeholder Required ''DEVICE'', Lit '', <b>'',
                 Placeholder Optional ''OPT'', Lit ''</b>'']]"
  have wf1: "\<forall>toks\<in>set ?doc1. \<forall>t\<in>set toks. well_formed t"
    and wf2: "\<forall>toks\<in>set ?doc2. \<forall>t\<in>set toks. well_formed t"
    by (simp_all add: token_eval)
  have v1: "\<forall>toks\<in>set ?doc1. values_fit [''GREETING'' \<mapsto> ''hi''] toks"
    and v2: "\<forall>toks\<in>set ?doc2. values_fit [''DEVICE'' \<mapsto> ''<i>Pi</i> [v2]''] toks"
    by (simp_all add: token_eval)
  from replace_variables_tokens [OF wf1 v1, of "''page.md''" "Some ''device''"]
    replace_variables_tokens [OF wf2 v2, of "''page.md''" "Some ''device''"]
  show ?thesis by (simp add: token_eval)
qed

text \<open>
  C7, as stated, fails: the required pass scans the line that the optional pass has
  produced, so a required placeholder brought in by the value of an optional one is
  substituted.
\<close>

theorem optional_value_is_scanned_again:
  "replace_line_content ''<<A>>'' ''page.md'' None [''A'' \<mapsto> ''[[X]]'', ''X'' \<mapsto> ''boom'']
     = (''boom'', True, [])
   \<and> ''boom'' \<noteq> ''[[X]]''
   \<and> replace_variables [''<<A>>''] ''page.md'' None [''A'' \<mapsto> ''[[X]]'', ''X'' \<mapsto> ''boom'']
     = ([''boom''], True, [])"
  by (simp add: subst_eval)

text \<open>
  C7, amended. The document is one line: text \<open>pre\<close>, one placeholder whose name has the
  value \<open>v\<close>, and text \<open>post\<close>. When the placeholder is required, its name has no
  square bracket and no doubled \<^verbatim>\<open><\<close>, and in \<open>pre\<close> and \<open>post\<close> no opening bracket is doubled or last, the
  line becomes \<open>pre\<close>, \<open>v\<close>, \<open>post\<close>, whatever \<open>v\<close> contains: the value is not scanned
  again. When the placeholder is optional, its name has no angle bracket, and in \<open>pre\<close>,
  \<open>post\<close> and \<open>v\<close> the bracket \<^verbatim>\<open><\<close> is neither doubled nor last, the result is that of
  the line \<open>pre\<close>, \<open>v\<close>, \<open>post\<close> itself: the required pass scans the value.
\<close>

theorem passes_scan_once:
  assumes "device_vars name = Some v"
  shows "(quiet pre \<and> quiet post \<and> CHR ''['' \<notin> set name \<and> CHR '']'' \<notin> set name
            \<and> \<not> doubled (CHR ''<'') name \<longrightarrow>
            replace_variables [pre @ required_pattern name @ post] path device_name device_vars
              = ([pre @ v @ post], True, []))
         \<and> (calm Optional pre \<and> calm Optional post \<and> CHR ''<'' \<notin> set name \<and> CHR ''>'' \<notin> set name
            \<and> calm Optional v \<longrightarrow>
            replace_variables [pre @ optional_pattern name @ post] path device_name device_vars
              = replace_variables [pre @ v @ post] path device_name device_vars)"
proof (intro conjI impI)
  assume c: "quiet pre \<and> quiet post \<and> CHR ''['' \<notin> set name \<and> CHR '']'' \<notin> set name
            \<and> \<not> doubled (CHR ''<'') name"
  let ?toks = "[Lit pre, Placeholder Required name, Lit post]"
  have "\<forall>t\<in>set ?toks. scannable Optional t" using c by (simp add: quiet_def)
  from no_placeholder_pass [OF this, of device_vars]
  have o: "replace_from_map (pre @ required_pattern name @ post) optional_variable_findall
             optional_pattern device_vars = (pre @ required_pattern name @ post, [])"
    by (simp add: optional_as_kind required_as_kind render_line_def)
  have "replace_from_map (pre @ pattern Required name @ post)
           (variable_findall (opener Required) (closer Required)) (pattern Required) device_vars
         = (pre @ value_of device_vars name @ post, filter (\<lambda>n. device_vars n = None) [name])"
    using c by (intro one_placeholder_pass) (auto simp: quiet_def)
  with assms have r: "replace_from_map (pre @ required_pattern name @ post) required_variable_findall
             required_pattern device_vars = (pre @ v @ post, [])"
    by (simp add: required_as_kind value_of_def)
  show "replace_variables [pre @ required_pattern name @ post] path device_name device_vars
              = ([pre @ v @ post], True, [])"
    by (simp add: replace_variables_single replace_line_content_def o r)
next
  assume c: "calm Optional pre \<and> calm Optional post \<and> CHR ''<'' \<notin> set name \<and> CHR ''>'' \<notin> set name
            \<and> calm Optional v"
  have "replace_from_map (pre @ pattern Optional name @ post)
           (variable_findall (opener Optional) (closer Optional)) (pattern Optional) device_vars
         = (pre @ value_of device_vars name @ post, filter (\<lambda>n. device_vars n = None) [name])"
    using c by (intro one_placeholder_pass) auto
  with assms have o: "replace_from_map (pre @ optional_pattern name @ post) optional_variable_findall
             optional_pattern device_vars = (pre @ v @ post, [])"
    by (simp add: optional_as_kind value_of_def)
  let ?toks = "[Lit pre, Lit v, Lit post]"
  have "\<forall>t\<in>set ?toks. scannable Optional t" using c by simp
  from no_placeholder_pass [OF this, of device_vars]
  have o': "replace_from_map (pre @ v @ post) optional_variable_findall
             optional_pattern device_vars = (pre @ v @ post, [])"
    by (simp add: optional_as_kind render_line_def)
  show "replace_variables [pre @ optional_pattern name @ post] path device_name device_vars
              = replace_variables [pre @ v @ post] path device_name device_vars"
    by (simp add: replace_variables_single replace_line_content_def o o')
qed

theorem passes_scan_once_witness:
  "replace_variables [''see [link](x) [[A]]!''] ''page.md'' None [''A'' \<mapsto> ''[[X]]'', ''X'' \<mapsto> ''boom'']
     = ([''see [link](x) [[X]]!''], True, [])
   \<and> replace_variables [''see [link](x) <<A>>!''] ''page.md'' None [''A'' \<mapsto> ''[[X]]'', ''X'' \<mapsto> ''boom'']
     = replace_variables [''see [link](x) [[X]]!''] ''page.md'' None [''A'' \<mapsto> ''[[X]]'', ''X'' \<mapsto> ''boom'']
   \<and> replace_variables [''see [link](x) [[X]]!''] ''page.md'' None [''A'' \<mapsto> ''[[X]]'', ''X'' \<mapsto> ''boom'']
     = ([''see [link](x) boom!''], True, [])"
proof -
  have m: "[''A'' \<mapsto> ''[[X]]'', ''X'' \<mapsto> ''boom''] ''A'' = Some ''[[X]]''"
    by simp
  have c1: "quiet ''see [link](x) '' \<and> quiet ''!'' \<and> CHR ''['' \<notin> set ''A'' \<and> CHR '']'' \<notin> set ''A''
            \<and> \<not> doubled (CHR ''<'') ''A''"
    and c2: "calm Optional ''see [link](x) '' \<and> calm Optional ''!'' \<and> CHR ''<'' \<notin> set ''A''
            \<and> CHR ''>'' \<notin> set ''A'' \<and> calm Optional ''[[X]]''"
    by (simp_all add: quiet_def calm_def)
  have e: "replace_variables [''see [link](x) [[X]]!''] ''page.md'' None [''A'' \<mapsto> ''[[X]]'', ''X'' \<mapsto> ''boom'']
     = ([''see [link](x) boom!''], True, [])"
    by (simp add: subst_eval)
  from passes_scan_once [of "[''A'' \<mapsto> ''[[X]]'', ''X'' \<mapsto> ''boom'']" "''A''" "''[[X]]''"
      "''see [link](x) ''" "''!''" "''page.md''" None, OF m] c1 c2 e show ?thesis
    by (simp add: required_pattern_def optional_pattern_def)
qed

end
